theory Spec2Isabelle
  imports Main "HOL-Library.Word" "HOL-Library.Dlist" "HOL-Library.AList"
begin

section \<open>Data model\<close>

text \<open>
  The index of \<^verbatim>\<open>go_tree\<close> is a trie over the bytes of a key. A key is a Go string, read
  byte by byte (\<^verbatim>\<open>s[i]\<close>), so it is a \<^typ>\<open>string\<close> here (a list of 8-bit characters). A
  \<^verbatim>\<open>rune\<close> is a 32-bit integer; the code only ever compares runes for equality (as keys of
  a map), so the sign plays no role. An object id (\<^verbatim>\<open>bson.ObjectId\<close>) is a Go string type,
  which the index only stores and compares.
\<close>

type_synonym rune = "32 word"

type_synonym ObjectId = string

definition rune :: "char \<Rightarrow> rune" where
  \<comment> \<open>the conversion \<^verbatim>\<open>rune(s[i])\<close> of a byte\<close>
  "rune c = of_char c"

subsection \<open>The standard library's \<^verbatim>\<open>strings.ToLower\<close>\<close>

text \<open>
  \<^verbatim>\<open>strings.ToLower\<close> belongs to Go's standard library. On a string of ASCII bytes it adds
  \<^verbatim>\<open>'a' - 'A'\<close> to every byte between \<^verbatim>\<open>'A'\<close> and \<^verbatim>\<open>'Z'\<close> and leaves the others alone;
  that is the function defined here. The general theorems below use one fact about it,
  that it maps the empty string and no other to the empty string; apart from that they
  hold for whatever function of strings stands in its place, and only the evaluations at
  concrete ASCII keys compute with it.
\<close>

definition lowerByte :: "char \<Rightarrow> char" where
  "lowerByte c =
     (if (65::nat) \<le> of_char c \<and> of_char c \<le> (90::nat)
      then char_of (of_char c + (32::nat)) else c)"

definition ToLower :: "string \<Rightarrow> string" where
  "ToLower s = map lowerByte s"

subsection \<open>Identifier sets\<close>

text \<open>
  Modelled from the spec: the type \<^verbatim>\<open>IDSet\<close> and its methods \<^verbatim>\<open>NewIDSet\<close>, \<^verbatim>\<open>SaveVal\<close>,
  \<^verbatim>\<open>Remove\<close>, \<^verbatim>\<open>ContainsVal\<close>, \<^verbatim>\<open>Size\<close> and \<^verbatim>\<open>GetVals\<close> are used by the two source files
  but defined in neither. The spec describes an unordered collection of distinct
  identifiers: \<^verbatim>\<open>Add(id)\<close> inserts the id if absent and does nothing otherwise,
  \<^verbatim>\<open>Remove(id)\<close> deletes it if present and does nothing otherwise, \<^verbatim>\<open>Contains\<close> tests
  membership, \<^verbatim>\<open>Size\<close> counts the members and \<^verbatim>\<open>Values\<close> lists them in an unspecified
  order. A duplicate-free list (\<^typ>\<open>'a dlist\<close>) is such a collection; the order in which
  it lists its members is one of the orders the spec allows.
\<close>

type_synonym IDSet = "ObjectId dlist"

definition NewIDSet :: IDSet where
  "NewIDSet = Dlist.empty"

definition IDSet_SaveVal :: "IDSet \<Rightarrow> ObjectId \<Rightarrow> IDSet" where
  "IDSet_SaveVal s oid = Dlist.insert oid s"

definition IDSet_Remove :: "IDSet \<Rightarrow> ObjectId \<Rightarrow> IDSet" where
  "IDSet_Remove s oid = Dlist.remove oid s"

definition IDSet_ContainsVal :: "IDSet \<Rightarrow> ObjectId \<Rightarrow> bool" where
  "IDSet_ContainsVal s oid = Dlist.member s oid"

definition IDSet_Size :: "IDSet \<Rightarrow> int" where
  "IDSet_Size s = int (Dlist.length s)"

definition IDSet_GetVals :: "IDSet \<Rightarrow> ObjectId list" where
  "IDSet_GetVals s = list_of_dlist s"

subsection \<open>Trie nodes (\<^verbatim>\<open>trienode.go\<close>)\<close>

text \<open>
  A node holds a Go map from runes to node pointers and an identifier set. A node pointer
  may be \<^verbatim>\<open>nil\<close>, so it is a \<^typ>\<open>'a option\<close>. The map is an association list: a lookup
  takes the first entry of a key, a store overwrites that entry in place or appends a new
  one, and the order of the list stands for the order in which Go happens to iterate over
  the map. A lookup of a key that the map does not hold gives \<^verbatim>\<open>nil\<close>, as in Go. Every
  node owns its children (a node is linked exactly once, when \<^verbatim>\<open>Add\<close> creates it), so
  the pointer graph is a tree and an update in place is the rebuilt node.
\<close>

datatype TrieNode = TrieNode (link: "(rune \<times> TrieNode option) list") (IDSet: IDSet)

definition NewTrieNode :: TrieNode where
  "NewTrieNode = TrieNode [] NewIDSet"

definition GetLink :: "TrieNode \<Rightarrow> rune \<Rightarrow> TrieNode option" where
  "GetLink tn r = (case map_of (link tn) r of None \<Rightarrow> None | Some l \<Rightarrow> l)"

definition PutLink :: "TrieNode \<Rightarrow> rune \<Rightarrow> TrieNode option \<Rightarrow> TrieNode" where
  "PutLink tn r l = TrieNode (AList.update r l (link tn)) (IDSet tn)"

definition GetAllRunes :: "TrieNode \<Rightarrow> rune list" where
  "GetAllRunes tn = map fst (link tn)"

definition RemoveLink :: "TrieNode \<Rightarrow> rune \<Rightarrow> TrieNode" where
  \<comment> \<open>\<^verbatim>\<open>tn.link[r] = nil\<close>: the key stays in the map\<close>
  "RemoveLink tn r = TrieNode (AList.update r None (link tn)) (IDSet tn)"

definition SaveVal :: "TrieNode \<Rightarrow> ObjectId \<Rightarrow> TrieNode" where
  "SaveVal tn oid = TrieNode (link tn) (IDSet_SaveVal (IDSet tn) oid)"

definition GetVals :: "TrieNode \<Rightarrow> ObjectId list" where
  "GetVals tn = IDSet_GetVals (IDSet tn)"

definition RemoveVal :: "TrieNode \<Rightarrow> ObjectId \<Rightarrow> TrieNode" where
  "RemoveVal tn oid = TrieNode (link tn) (IDSet_Remove (IDSet tn) oid)"

definition ContainsVal :: "TrieNode \<Rightarrow> ObjectId \<Rightarrow> bool" where
  "ContainsVal tn oid = IDSet_ContainsVal (IDSet tn) oid"

definition IsLeafNode :: "TrieNode \<Rightarrow> bool" where
  "IsLeafNode tn = (length (GetAllRunes tn) = 0)"

section \<open>The trie\<close>

text \<open>
  The \<^verbatim>\<open>Trie\<close> holds the root pointer, which \<^verbatim>\<open>NewTrie\<close> sets to a fresh node and which
  nothing assigns afterwards, and a mutex. The model is sequential: it has the root and
  leaves the mutex out.
\<close>

record Trie =
  root :: TrieNode

definition NewTrie :: Trie where
  "NewTrie = \<lparr>root = NewTrieNode\<rparr>"

text \<open>
  Calling a method on a \<^verbatim>\<open>nil\<close> node pointer panics in Go (every method reads a field of
  its receiver). The functions that take a node pointer as a parameter keep that case:
  it is the error \<open>NilDereference\<close>.
\<close>

datatype error = NilDereference

type_synonym 'a result = "error + 'a"

subsection \<open>\<^verbatim>\<open>Add\<close>\<close>

text \<open>
  The loop of \<^verbatim>\<open>Add\<close> walks \<^verbatim>\<open>curr\<close> down from the root, one byte of the key at a time.
  \<^verbatim>\<open>curr\<close> is the root, a link that was just tested against \<^verbatim>\<open>nil\<close>, or a fresh node. The
  function returns the node \<^verbatim>\<open>curr\<close> as the rest of the loop leaves it; the node below is
  stored back under its rune, which is where the pointer of the source already is. The
  pointer to the last node, which \<^verbatim>\<open>Add\<close> returns, is not part of the model.
\<close>

fun Add_loop :: "TrieNode \<Rightarrow> string \<Rightarrow> ObjectId \<Rightarrow> TrieNode" where
  "Add_loop cur [] oid = (if \<not> ContainsVal cur oid then SaveVal cur oid else cur)"
| "Add_loop cur (c # s) oid =
     (let r = rune c in
      case GetLink cur r of
        Some nxt \<Rightarrow> PutLink cur r (Some (Add_loop nxt s oid))
      | None \<Rightarrow> PutLink cur r (Some (Add_loop NewTrieNode s oid)))"

definition Add :: "Trie \<Rightarrow> string \<Rightarrow> ObjectId \<Rightarrow> Trie" where
  "Add t s oid = (let s = ToLower s in t\<lparr>root := Add_loop (root t) s oid\<rparr>)"

subsection \<open>\<^verbatim>\<open>findTip\<close>\<close>

fun findTip :: "string \<Rightarrow> TrieNode option \<Rightarrow> TrieNode option result" where
  "findTip [] cur = Inr cur"
| "findTip (c # prefix) cur =
     (case cur of
        None \<Rightarrow> Inl NilDereference
      | Some tn \<Rightarrow>
          (let r = rune c in
           if GetLink tn r \<noteq> None then findTip prefix (GetLink tn r) else Inr None))"

subsection \<open>\<^verbatim>\<open>Remove\<close>\<close>

text \<open>
  \<^verbatim>\<open>removeHelper\<close> recurses on the index into the prefix; the recursion here is on the
  rest of the prefix from that index on. It returns its boolean together with the node
  \<^verbatim>\<open>curr\<close> as the call leaves it.
\<close>

fun removeHelper :: "TrieNode option \<Rightarrow> string \<Rightarrow> ObjectId \<Rightarrow> (bool \<times> TrieNode) result" where
  "removeHelper None prefix oid = Inl NilDereference"
| "removeHelper (Some cur) [] oid =
     (if \<not> ContainsVal cur oid then Inr (False, cur)
      else let cur = RemoveVal cur oid in
           if length (GetVals cur) = 0 \<and> IsLeafNode cur then Inr (True, cur)
           else Inr (False, cur))"
| "removeHelper (Some cur) (c # prefix) oid =
     (let r = rune c; node = GetLink cur r in
      if node = None then Inr (False, cur)
      else case removeHelper node prefix oid of
             Inl e \<Rightarrow> Inl e
           | Inr (shouldDelete, node') \<Rightarrow>
               (let cur = PutLink cur r (Some node') in
                if shouldDelete
                then (let cur = RemoveLink cur r in Inr (IsLeafNode cur, cur))
                else Inr (False, cur)))"

definition Remove :: "Trie \<Rightarrow> string \<Rightarrow> ObjectId \<Rightarrow> Trie result" where
  "Remove t prefix oid =
     (case removeHelper (Some (root t)) prefix oid of
        Inl e \<Rightarrow> Inl e
      | Inr (_, root') \<Rightarrow> Inr (t\<lparr>root := root'\<rparr>))"

subsection \<open>\<^verbatim>\<open>Get\<close>\<close>

definition Get :: "Trie \<Rightarrow> string \<Rightarrow> ObjectId list result" where
  "Get t prefix =
     (let prefix = ToLower prefix in
      case findTip prefix (Some (root t)) of
        Inl e \<Rightarrow> Inl e
      | Inr cur \<Rightarrow>
          (case cur of
             Some tn \<Rightarrow> (let vals = GetVals tn in if length vals \<noteq> 0 then Inr vals else Inr [])
           | None \<Rightarrow> Inr []))"

subsection \<open>\<^verbatim>\<open>GetMany\<close>\<close>

text \<open>
  \<^verbatim>\<open>depthFirst\<close> fills the set \<^verbatim>\<open>res\<close> in place; here it returns the set. Its limit is the
  Go \<^verbatim>\<open>int\<close> that \<^verbatim>\<open>GetMany\<close> passes on, which is only compared with the size of the set.
  The recursion goes through the children of a node, so its termination is by the size of
  the node.
\<close>

lemma GetLink_size: "GetLink tn r = Some c \<Longrightarrow> size c < size tn"
proof -
  assume "GetLink tn r = Some c"
  then have "map_of (link tn) r = Some (Some c)"
    by (auto simp: GetLink_def split: option.splits)
  then have m: "(r, Some c) \<in> set (link tn)"
    by (rule map_of_SomeD)
  have "(r, Some c) \<in> set l \<Longrightarrow> size c < size_list (size_prod (\<lambda>x. 0) (size_option size)) l"
    for l :: "(rune \<times> TrieNode option) list"
    by (induction l) auto
  from this [OF m] show ?thesis
    by (cases tn) simp
qed

function depthFirst :: "TrieNode option \<Rightarrow> int \<Rightarrow> IDSet \<Rightarrow> IDSet" where
  "depthFirst None maxn res = res"
| "depthFirst (Some cur) maxn res =
     (let runes = GetAllRunes cur;
          idList = GetVals cur;
          res = (if length idList > 0
                 then fold (\<lambda>oid res. if IDSet_Size res < maxn then IDSet_SaveVal res oid else res)
                        idList res
                 else res)
      in if length idList > 0 \<and> IsLeafNode cur then res
         else fold (\<lambda>currentRune res. depthFirst (GetLink cur currentRune) maxn res) runes res)"
  by pat_completeness auto
termination
  apply (relation "measure (\<lambda>(p, _, _). case p of None \<Rightarrow> 0 | Some n \<Rightarrow> Suc (size n))")
   apply simp
  apply (auto split: option.splits dest: GetLink_size)
  done

definition GetMany :: "Trie \<Rightarrow> string \<Rightarrow> int \<Rightarrow> ObjectId list result" where
  "GetMany t prefix n =
     (let prefix = ToLower prefix in
      case findTip prefix (Some (root t)) of
        Inl e \<Rightarrow> Inl e
      | Inr cur \<Rightarrow>
          (let res = NewIDSet in
           if cur \<noteq> None then Inr (IDSet_GetVals (depthFirst cur n res))
           else Inr (IDSet_GetVals res)))"

section \<open>Notions of the specification\<close>

text \<open>
  The node at the end of the path of a key: from a node, follow the child of each byte of
  the key in turn; the path does not exist as soon as a byte has no child node (no entry,
  or an entry that holds \<^verbatim>\<open>nil\<close>).
\<close>

fun path_node :: "string \<Rightarrow> TrieNode \<Rightarrow> TrieNode option" where
  "path_node [] tn = Some tn"
| "path_node (c # k) tn =
     (case map_of (link tn) (rune c) of
        Some (Some child) \<Rightarrow> path_node k child
      | _ \<Rightarrow> None)"

text \<open>The identifiers stored at a node or below it.\<close>

function ids_below :: "TrieNode \<Rightarrow> ObjectId set" where
  "ids_below tn =
     set (GetVals tn) \<union>
     (\<Union>r \<in> set (GetAllRunes tn). case GetLink tn r of None \<Rightarrow> {} | Some child \<Rightarrow> ids_below child)"
  by pat_completeness auto
termination
  apply (relation "measure size")
   apply simp
  apply (auto dest: GetLink_size)
  done

text \<open>
  The states the index can reach: the operations that change it, applied in sequence to
  the empty index. A panic ends the run.
\<close>

datatype operation = OpAdd string ObjectId | OpRemove string ObjectId

fun apply_ops :: "operation list \<Rightarrow> Trie \<Rightarrow> Trie result" where
  "apply_ops [] t = Inr t"
| "apply_ops (OpAdd s oid # ops) t = apply_ops ops (Add t s oid)"
| "apply_ops (OpRemove prefix oid # ops) t =
     (case Remove t prefix oid of Inl e \<Rightarrow> Inl e | Inr t' \<Rightarrow> apply_ops ops t')"

fun add_keys_nonempty :: "operation list \<Rightarrow> bool" where
  "add_keys_nonempty [] = True"
| "add_keys_nonempty (OpAdd s oid # ops) = (s \<noteq> [] \<and> add_keys_nonempty ops)"
| "add_keys_nonempty (OpRemove prefix oid # ops) = add_keys_nonempty ops"

text \<open>
  Two notions for the proofs about \<^verbatim>\<open>depthFirst\<close>: what the traversal does with one
  identifier it meets (it saves it while the result is below the limit), and the sequence
  of identifiers it meets, in the order in which it meets them.
\<close>

definition offer :: "int \<Rightarrow> ObjectId \<Rightarrow> IDSet \<Rightarrow> IDSet" where
  "offer maxn oid res = (if IDSet_Size res < maxn then IDSet_SaveVal res oid else res)"

function traversal :: "TrieNode option \<Rightarrow> ObjectId list" where
  "traversal None = []"
| "traversal (Some cur) =
     GetVals cur @ concat (map (\<lambda>r. traversal (GetLink cur r)) (GetAllRunes cur))"
  by pat_completeness auto
termination
  apply (relation "measure (\<lambda>p. case p of None \<Rightarrow> 0 | Some n \<Rightarrow> Suc (size n))")
   apply simp
  apply (auto split: option.splits dest: GetLink_size)
  done

section \<open>Basic facts\<close>

declare ids_below.simps [simp del]

lemma ToLower_Nil_iff [simp]: "ToLower s = [] \<longleftrightarrow> s = []"
  by (simp add: ToLower_def)

lemma GetLink_PutLink [simp]:
  "GetLink (PutLink tn r l) r' = (if r' = r then l else GetLink tn r')"
  by (simp add: GetLink_def PutLink_def update_conv')

lemma GetLink_RemoveLink [simp]:
  "GetLink (RemoveLink tn r) r' = (if r' = r then None else GetLink tn r')"
  by (simp add: GetLink_def RemoveLink_def update_conv')

lemma PutLink_PutLink [simp]: "PutLink (PutLink tn r l) r l' = PutLink tn r l'"
  by (simp add: PutLink_def)

lemma PutLink_same: "GetLink tn r = Some c \<Longrightarrow> PutLink tn r (Some c) = tn"
  by (cases tn) (auto simp: GetLink_def PutLink_def update_triv split: option.splits)

lemma IDSet_PutLink [simp]: "IDSet (PutLink tn r l) = IDSet tn"
  by (simp add: PutLink_def)

lemma IDSet_RemoveLink [simp]: "IDSet (RemoveLink tn r) = IDSet tn"
  by (simp add: RemoveLink_def)

lemma ContainsVal_iff: "ContainsVal tn oid \<longleftrightarrow> oid \<in> set (GetVals tn)"
  by (simp add: ContainsVal_def GetVals_def IDSet_ContainsVal_def IDSet_GetVals_def
      Dlist.member_def)

lemma GetVals_SaveVal: "set (GetVals (SaveVal tn oid)) = insert oid (set (GetVals tn))"
  by (simp add: GetVals_def SaveVal_def IDSet_GetVals_def IDSet_SaveVal_def)

lemma GetVals_RemoveVal: "set (GetVals (RemoveVal tn oid)) = set (GetVals tn) - {oid}"
  by (auto simp: GetVals_def RemoveVal_def IDSet_GetVals_def IDSet_Remove_def)

lemma distinct_GetVals [simp]: "distinct (GetVals tn)"
  by (simp add: GetVals_def IDSet_GetVals_def)

lemma GetVals_PutLink [simp]: "GetVals (PutLink tn r l) = GetVals tn"
  by (simp add: GetVals_def)

lemma IsLeafNode_RemoveLink [simp]: "\<not> IsLeafNode (RemoveLink tn r)"
  by (simp add: IsLeafNode_def GetAllRunes_def RemoveLink_def)

lemma path_node_GetLink:
  "path_node (c # k) tn = (case GetLink tn (rune c) of None \<Rightarrow> None | Some child \<Rightarrow> path_node k child)"
  by (simp add: GetLink_def split: option.splits)

text \<open>
  \<^verbatim>\<open>findTip\<close>, started at a node, never panics, and finds the node at the end of the
  path.
\<close>

lemma findTip_path_node: "findTip k (Some tn) = Inr (path_node k tn)"
proof (induction k arbitrary: tn)
  case Nil
  show ?case by simp
next
  case (Cons c k)
  show ?case
  proof (cases "GetLink tn (rune c)")
    case None
    then show ?thesis by (simp add: path_node_GetLink del: path_node.simps)
  next
    case (Some child)
    then show ?thesis using Cons.IH [of child]
      by (simp add: path_node_GetLink del: path_node.simps)
  qed
qed

lemma Get_path_node:
  "Get t k = Inr (case path_node (ToLower k) (root t) of None \<Rightarrow> [] | Some tn \<Rightarrow> GetVals tn)"
  by (simp add: Get_def findTip_path_node Let_def split: option.splits)

subsection \<open>Evaluation at concrete inputs\<close>

lemma member_empty: "Dlist.member Dlist.empty x = False"
  by (simp add: Dlist.member_def)

lemma member_insert: "Dlist.member (Dlist.insert y d) x = (x = y \<or> Dlist.member d x)"
  by (auto simp: Dlist.member_def)

lemma remove_empty: "Dlist.remove x Dlist.empty = Dlist.empty"
  by (simp add: dlist_eq_iff)

lemma remove_insert:
  "Dlist.remove x (Dlist.insert y d) =
     (if x = y then Dlist.remove x d else Dlist.insert y (Dlist.remove x d))"
  by (auto simp: dlist_eq_iff List.insert_def remove1_idem)

lemmas eval_simps =
  Add_def Remove_def Get_def GetMany_def NewTrie_def NewTrieNode_def NewIDSet_def
  GetLink_def PutLink_def RemoveLink_def GetAllRunes_def IsLeafNode_def
  SaveVal_def GetVals_def RemoveVal_def ContainsVal_def
  IDSet_SaveVal_def IDSet_Remove_def IDSet_ContainsVal_def IDSet_Size_def IDSet_GetVals_def
  member_empty member_insert remove_empty remove_insert Dlist.length_def
  rune_def Let_def

lemma ToLower_a: "ToLower ''a'' = ''a''"
  by code_simp

lemma ToLower_ab: "ToLower ''ab'' = ''ab''"
  by code_simp

lemma ToLower_ac: "ToLower ''ac'' = ''ac''"
  by code_simp

lemma ToLower_foo: "ToLower ''foo'' = ''foo''"
  by code_simp

lemma ToLower_Foo: "ToLower ''Foo'' = ''foo''"
  by code_simp

lemma ToLower_FOO: "ToLower ''FOO'' = ''foo''"
  by code_simp

section \<open>Insertion and exact lookup\<close>

lemma path_node_Add_loop:
  "\<exists>tn. path_node k (Add_loop cur k oid) = Some tn \<and> oid \<in> set (GetVals tn)"
proof (induction k arbitrary: cur)
  case Nil
  show ?case by (simp add: ContainsVal_iff GetVals_SaveVal)
next
  case (Cons c k)
  show ?case
  proof (cases "GetLink cur (rune c)")
    case None
    with Cons.IH [of NewTrieNode] show ?thesis
      by (simp add: path_node_GetLink del: path_node.simps)
  next
    case (Some nxt)
    with Cons.IH [of nxt] show ?thesis
      by (simp add: path_node_GetLink del: path_node.simps)
  qed
qed

lemma Add_loop_idem: "Add_loop (Add_loop cur k oid) k oid = Add_loop cur k oid"
proof (induction k arbitrary: cur)
  case Nil
  show ?case by (simp add: ContainsVal_iff GetVals_SaveVal)
next
  case (Cons c k)
  show ?case
    by (cases "GetLink cur (rune c)") (simp_all add: Cons.IH)
qed

lemma count_list_distinct: "distinct xs \<Longrightarrow> x \<in> set xs \<Longrightarrow> count_list xs x = 1"
  by (induction xs) auto

text \<open>
  Claim C5. \<^verbatim>\<open>Get\<close> is an exact-match lookup: when the path of the (case-folded) key does
  not exist in full, it returns the empty sequence; otherwise it returns exactly the
  identifiers of the node at the end of the path, the empty sequence if that node holds
  none, and nothing of the nodes below it. It never panics.
\<close>

theorem Get_exact_match:
  "Get t k = Inr (case path_node (ToLower k) (root t) of None \<Rightarrow> [] | Some tn \<Rightarrow> GetVals tn)"
  by (simp add: Get_def findTip_path_node Let_def split: option.splits)

text \<open>
  Claim C6. For every index, key and identifier, \<^verbatim>\<open>Add(k, id)\<close> followed by \<^verbatim>\<open>Get(k)\<close>
  returns a sequence that includes the identifier.
\<close>

theorem Add_then_Get: "\<exists>vs. Get (Add t k oid) k = Inr vs \<and> oid \<in> set vs"
proof -
  obtain tn where "path_node (ToLower k) (Add_loop (root t) (ToLower k) oid) = Some tn"
      and "oid \<in> set (GetVals tn)"
    using path_node_Add_loop by blast
  then show ?thesis
    by (simp add: Get_path_node Add_def)
qed

text \<open>
  Claim C7. \<^verbatim>\<open>Add\<close> is idempotent per pair of key and identifier: a second \<^verbatim>\<open>Add(k, id)\<close>
  leaves the index exactly as the first one left it (so the identifier set at the key's
  position, and its size, are those after the first call), and \<^verbatim>\<open>Get(k)\<close> then lists the
  identifier once.
\<close>

theorem Add_idempotent:
  "Add (Add t k oid) k oid = Add t k oid \<and>
   (\<exists>vs. Get (Add (Add t k oid) k oid) k = Inr vs \<and> count_list vs oid = 1)"
proof -
  have eq: "Add (Add t k oid) k oid = Add t k oid"
    by (simp add: Add_def Add_loop_idem)
  obtain tn where "path_node (ToLower k) (Add_loop (root t) (ToLower k) oid) = Some tn"
      and "oid \<in> set (GetVals tn)"
    using path_node_Add_loop by blast
  then have "Get (Add t k oid) k = Inr (GetVals tn) \<and> count_list (GetVals tn) oid = 1"
    by (simp add: Get_path_node Add_def count_list_distinct)
  with eq show ?thesis by simp
qed

section \<open>Removal\<close>

text \<open>\<^verbatim>\<open>removeHelper\<close>, started at a node, returns: no call of it reaches a \<^verbatim>\<open>nil\<close> node.\<close>

lemma removeHelper_returns: "\<exists>b tn'. removeHelper (Some tn) p oid = Inr (b, tn')"
proof (induction p arbitrary: tn)
  case Nil
  show ?case by (auto simp: Let_def)
next
  case (Cons c p)
  show ?case
  proof (cases "GetLink tn (rune c)")
    case None
    then show ?thesis by auto
  next
    case (Some node)
    from Cons.IH [of node] obtain b node' where "removeHelper (Some node) p oid = Inr (b, node')"
      by blast
    with Some show ?thesis by (auto simp: Let_def)
  qed
qed

lemma Remove_returns: "\<exists>t'. Remove t p oid = Inr t'"
proof -
  obtain b tn' where "removeHelper (Some (root t)) p oid = Inr (b, tn')"
    using removeHelper_returns by blast
  then show ?thesis by (simp add: Remove_def)
qed

lemma removeHelper_noop:
  assumes "path_node p tn = None \<or> (\<exists>tip. path_node p tn = Some tip \<and> \<not> ContainsVal tip oid)"
  shows "removeHelper (Some tn) p oid = Inr (False, tn)"
  using assms
proof (induction p arbitrary: tn)
  case Nil
  then show ?case by simp
next
  case (Cons c p)
  show ?case
  proof (cases "GetLink tn (rune c)")
    case None
    then show ?thesis by simp
  next
    case (Some node)
    with Cons.prems have "path_node p node = None \<or>
        (\<exists>tip. path_node p node = Some tip \<and> \<not> ContainsVal tip oid)"
      by (simp add: path_node_GetLink del: path_node.simps)
    then have "removeHelper (Some node) p oid = Inr (False, node)"
      by (rule Cons.IH)
    with Some show ?thesis by (simp add: PutLink_same)
  qed
qed

text \<open>
  Claim C8. Removing a pair that is not there changes nothing and raises nothing: when the
  path of the prefix does not exist in full, or the node at its end does not hold the
  identifier, \<^verbatim>\<open>Remove\<close> returns normally and the index is the one it was given, node for
  node. The path is that of the prefix as it is passed, which is what \<^verbatim>\<open>Remove\<close> walks.
\<close>

theorem Remove_absent_noop:
  assumes "path_node p (root t) = None \<or>
    (\<exists>tip. path_node p (root t) = Some tip \<and> \<not> ContainsVal tip oid)"
  shows "Remove t p oid = Inr t"
  using removeHelper_noop [OF assms] by (simp add: Remove_def)

theorem Remove_absent_noop_witness:
  "path_node ''ax'' (root (Add NewTrie ''ab'' ''id1'')) = None \<and>
   Remove (Add NewTrie ''ab'' ''id1'') ''ax'' ''id1'' = Inr (Add NewTrie ''ab'' ''id1'') \<and>
   (\<exists>tip. path_node ''ab'' (root (Add NewTrie ''ab'' ''id1'')) = Some tip \<and> \<not> ContainsVal tip ''id2'') \<and>
   Remove (Add NewTrie ''ab'' ''id1'') ''ab'' ''id2'' = Inr (Add NewTrie ''ab'' ''id1'')"
proof -
  let ?t = "Add NewTrie ''ab'' ''id1''"
  have h1: "path_node ''ax'' (root ?t) = None"
    by (simp add: eval_simps ToLower_ab)
  have h2: "\<exists>tip. path_node ''ab'' (root ?t) = Some tip \<and> \<not> ContainsVal tip ''id2''"
    by (simp add: eval_simps ToLower_ab)
  from h1 have "Remove ?t ''ax'' ''id1'' = Inr ?t"
    by (intro Remove_absent_noop) simp
  moreover from h2 have "Remove ?t ''ab'' ''id2'' = Inr ?t"
    by (intro Remove_absent_noop) simp
  ultimately show ?thesis using h1 h2 by simp
qed

text \<open>
  A call of \<^verbatim>\<open>removeHelper\<close> above the last node of the prefix never asks for its own node
  to be unlinked: once it has set the entry of the child to \<^verbatim>\<open>nil\<close>, the key of that
  entry is still in its map, so \<^verbatim>\<open>IsLeafNode\<close> is false.
\<close>

lemma removeHelper_inner_False:
  "removeHelper (Some tn) (c # p) oid = Inr (b, tn') \<Longrightarrow> \<not> b"
  by (auto simp: Let_def split: if_splits sum.splits)

text \<open>
  Claim C1, at the index that holds the one pair (\<^verbatim>\<open>"ab"\<close>, \<^verbatim>\<open>id1\<close>): after
  \<^verbatim>\<open>Remove("ab", id1)\<close> the root still links the node of \<^verbatim>\<open>"a"\<close>, which holds no identifier
  and whose only entry, for \<^verbatim>\<open>'b'\<close>, is \<^verbatim>\<open>nil\<close>. The claim has the whole path collapse to
  the root. \<^verbatim>\<open>Get("ab")\<close> is empty, as the claim says.
\<close>

theorem dead_path_not_collapsed:
  "Remove (Add NewTrie ''ab'' ''id1'') ''ab'' ''id1'' =
     Inr \<lparr>root = TrieNode [(rune CHR ''a'', Some (TrieNode [(rune CHR ''b'', None)] NewIDSet))]
                   NewIDSet\<rparr> \<and>
   Get \<lparr>root = TrieNode [(rune CHR ''a'', Some (TrieNode [(rune CHR ''b'', None)] NewIDSet))]
                NewIDSet\<rparr> ''ab'' = Inr []"
  by (simp add: eval_simps ToLower_ab)

text \<open>
  Claim C2, at the index that holds the one pair (\<^verbatim>\<open>"Foo"\<close>, \<^verbatim>\<open>id1\<close>): \<^verbatim>\<open>Get\<close> finds the
  identifier under \<^verbatim>\<open>"foo"\<close> and under \<^verbatim>\<open>"FOO"\<close>, but \<^verbatim>\<open>Remove\<close> does not fold the case of
  its prefix, so neither \<^verbatim>\<open>Remove("Foo", id1)\<close> nor \<^verbatim>\<open>Remove("FOO", id1)\<close> removes the pair:
  both leave the index as it was.
\<close>

theorem Remove_not_case_folded:
  "Get (Add NewTrie ''Foo'' ''id1'') ''foo'' = Inr [''id1''] \<and>
   Get (Add NewTrie ''Foo'' ''id1'') ''FOO'' = Inr [''id1''] \<and>
   Remove (Add NewTrie ''Foo'' ''id1'') ''Foo'' ''id1'' = Inr (Add NewTrie ''Foo'' ''id1'') \<and>
   Remove (Add NewTrie ''Foo'' ''id1'') ''FOO'' ''id1'' = Inr (Add NewTrie ''Foo'' ''id1'')"
  by (simp add: eval_simps ToLower_Foo ToLower_FOO ToLower_foo)

section \<open>The root's identifier set\<close>

lemma removeHelper_IDSet_empty:
  assumes "removeHelper (Some tn) p oid = Inr (b, tn')" and "GetVals tn = []"
  shows "GetVals tn' = []"
proof (cases p)
  case Nil
  with assms show ?thesis by (simp add: ContainsVal_iff)
next
  case (Cons c p')
  with assms show ?thesis
    by (auto simp: Let_def GetVals_def split: if_splits sum.splits)
qed

lemma Add_loop_IDSet: "k \<noteq> [] \<Longrightarrow> GetVals (Add_loop tn k oid) = GetVals tn"
  by (cases k) (auto simp: Let_def split: option.splits)

lemma apply_ops_root_empty:
  assumes "add_keys_nonempty ops" and "GetVals (root t) = []"
  shows "\<exists>t'. apply_ops ops t = Inr t' \<and> GetVals (root t') = []"
  using assms
proof (induction ops t rule: apply_ops.induct)
  case (1 t)
  then show ?case by simp
next
  case (2 s oid ops t)
  then show ?case by (simp add: Add_def Add_loop_IDSet)
next
  case (3 prefix oid ops t)
  obtain b tn' where r: "removeHelper (Some (root t)) prefix oid = Inr (b, tn')"
    using removeHelper_returns by blast
  with "3.prems" have "GetVals tn' = []"
    using removeHelper_IDSet_empty by blast
  with r "3.IH" [of "t\<lparr>root := tn'\<rparr>"] "3.prems" show ?case
    by (simp add: Remove_def)
qed

lemma apply_ops_returns: "\<exists>t'. apply_ops ops t = Inr t'"
proof (induction ops t rule: apply_ops.induct)
  case (1 t)
  show ?case by simp
next
  case (2 s oid ops t)
  then show ?case by simp
next
  case (3 prefix oid ops t)
  obtain t' where "Remove t prefix oid = Inr t'"
    using Remove_returns by blast
  with "3.IH" [of t'] show ?case by simp
qed

text \<open>
  Claim C3 as stated fails: \<^verbatim>\<open>Add\<close> with the empty key stores the identifier in the root.
\<close>

theorem root_ids_counterexample:
  "GetVals (root (Add NewTrie [] ''id1'')) = [''id1'']"
  by (simp add: eval_simps ToLower_def)

text \<open>
  Claim C3, amended. In every state reached from the empty index by \<^verbatim>\<open>Add\<close> and \<^verbatim>\<open>Remove\<close>
  operations of which no \<^verbatim>\<open>Add\<close> has the empty key, the root holds no identifier (and no
  operation of the sequence panics); an \<^verbatim>\<open>Add\<close> with the empty key then stores its
  identifier in the root.
\<close>

theorem root_ids_empty:
  assumes "add_keys_nonempty ops"
  shows "\<exists>t. apply_ops ops NewTrie = Inr t \<and> GetVals (root t) = [] \<and>
    GetVals (root (Add t [] oid)) = [oid]"
proof -
  have "GetVals (root NewTrie) = []"
    by (simp add: eval_simps)
  with assms obtain t where t: "apply_ops ops NewTrie = Inr t" "GetVals (root t) = []"
    using apply_ops_root_empty by blast
  from t(2) have "GetVals (root (Add t [] oid)) = [oid]"
    by (simp add: Add_def ToLower_def ContainsVal_iff)
       (simp add: GetVals_def SaveVal_def IDSet_GetVals_def IDSet_SaveVal_def)
  with t show ?thesis by simp
qed

theorem root_ids_empty_witness:
  "add_keys_nonempty [OpAdd ''ab'' ''id1'', OpRemove ''ab'' ''id1'', OpAdd ''a'' ''id2''] \<and>
   (\<exists>t. apply_ops [OpAdd ''ab'' ''id1'', OpRemove ''ab'' ''id1'', OpAdd ''a'' ''id2''] NewTrie = Inr t \<and>
        GetVals (root t) = [] \<and> GetVals (root (Add t [] ''id3'')) = [''id3''])"
proof -
  have h: "add_keys_nonempty [OpAdd ''ab'' ''id1'', OpRemove ''ab'' ''id1'', OpAdd ''a'' ''id2'']"
    by simp
  from root_ids_empty [OF h, of "''id3''"] h show ?thesis by blast
qed

section \<open>Prefix queries\<close>

text \<open>
  \<^verbatim>\<open>depthFirst\<close> offers the identifiers of the subtree to the result one by one, in the
  order of the traversal: the early return at a leaf skips a loop over no children.
\<close>

declare traversal.simps(2) [simp del]

lemma fold_concat_fold: "fold f (concat xss) = fold (fold f) xss"
  by (induction xss) simp_all

lemma fold_offer_subset:
  "set (IDSet_GetVals (fold (offer m) xs res)) \<subseteq> set (IDSet_GetVals res) \<union> set xs"
proof (induction xs arbitrary: res)
  case Nil
  show ?case by simp
next
  case (Cons x xs)
  have "set (IDSet_GetVals (offer m x res)) \<subseteq> insert x (set (IDSet_GetVals res))"
    by (auto simp: offer_def IDSet_GetVals_def IDSet_SaveVal_def)
  with Cons.IH [of "offer m x res"] show ?case by auto
qed

lemma fold_offer_length:
  assumes "int (length (IDSet_GetVals res)) \<le> m"
  shows "length (IDSet_GetVals (fold (offer m) xs res)) =
         min (nat m) (card (set (IDSet_GetVals res) \<union> set xs))"
  using assms
proof (induction xs arbitrary: res)
  case Nil
  have "card (set (IDSet_GetVals res)) = length (IDSet_GetVals res)"
    by (simp add: IDSet_GetVals_def distinct_card)
  with Nil show ?case by simp
next
  case (Cons x xs)
  show ?case
  proof (cases "IDSet_Size res < m")
    case True
    have len: "length (IDSet_GetVals (IDSet_SaveVal res x)) \<le> Suc (length (IDSet_GetVals res))"
      by (simp add: IDSet_GetVals_def IDSet_SaveVal_def List.insert_def)
    from True have "int (length (IDSet_GetVals res)) < m"
      by (simp add: IDSet_Size_def IDSet_GetVals_def Dlist.length_def)
    with len have "int (length (IDSet_GetVals (IDSet_SaveVal res x))) \<le> m"
      by linarith
    from Cons.IH [OF this] True show ?thesis
      by (simp add: offer_def IDSet_GetVals_def IDSet_SaveVal_def)
  next
    case False
    with Cons.prems have full: "int (length (IDSet_GetVals res)) = m"
      by (simp add: IDSet_Size_def IDSet_GetVals_def Dlist.length_def)
    have c: "card (set (IDSet_GetVals res)) = length (IDSet_GetVals res)"
      by (simp add: IDSet_GetVals_def distinct_card)
    have "card (set (IDSet_GetVals res)) \<le> card (set (IDSet_GetVals res) \<union> A)" if "finite A" for A
      using that by (intro card_mono) auto
    from this [of "set xs"] this [of "set (x # xs)"] c full
    have "nat m \<le> card (set (IDSet_GetVals res) \<union> set xs)"
      and "nat m \<le> card (set (IDSet_GetVals res) \<union> set (x # xs))"
      by auto
    with Cons.IH [OF Cons.prems] False show ?thesis
      by (simp add: offer_def)
  qed
qed

lemma depthFirst_Some:
  "depthFirst (Some cur) m res =
     fold (\<lambda>r. depthFirst (GetLink cur r) m) (GetAllRunes cur) (fold (offer m) (GetVals cur) res)"
  by (cases "GetVals cur") (auto simp: Let_def offer_def [abs_def] IsLeafNode_def)

lemma depthFirst_fold: "depthFirst p m res = fold (offer m) (traversal p) res"
proof (induction p m res rule: depthFirst.induct)
  case (1 maxn res)
  show ?case by simp
next
  case (2 cur maxn res)
  have step: "depthFirst (GetLink cur r) maxn acc = fold (offer maxn) (traversal (GetLink cur r)) acc"
    if "r \<in> set (GetAllRunes cur)" for r acc
  proof -
    from that have "\<not> IsLeafNode cur"
      by (auto simp: IsLeafNode_def)
    then have "\<not> (0 < length (GetVals cur) \<and> IsLeafNode cur)"
      by simp
    from "2.IH" [OF refl refl refl this that] show ?thesis .
  qed
  have "fold (\<lambda>r. depthFirst (GetLink cur r) maxn) (GetAllRunes cur) acc =
        fold (\<lambda>r. fold (offer maxn) (traversal (GetLink cur r))) (GetAllRunes cur) acc" for acc
    by (rule fold_cong) (auto simp: step)
  then show ?case
    by (simp only: depthFirst_Some traversal.simps(2) fold_append fold_concat_fold fold_map comp_def)
qed

lemma set_traversal: "set (traversal (Some tn)) = ids_below tn"
proof (induction tn rule: ids_below.induct)
  case (1 tn)
  have "set (traversal (GetLink tn r)) =
        (case GetLink tn r of None \<Rightarrow> {} | Some child \<Rightarrow> ids_below child)"
    if "r \<in> set (GetAllRunes tn)" for r
    using that by (cases "GetLink tn r") (simp_all add: "1.IH")
  then show ?case
    by (subst ids_below.simps) (simp add: traversal.simps(2))
qed

lemma GetMany_eq:
  "GetMany t p n = Inr (case path_node (ToLower p) (root t) of
       None \<Rightarrow> []
     | Some tip \<Rightarrow> IDSet_GetVals (fold (offer n) (traversal (Some tip)) NewIDSet))"
  by (simp add: GetMany_def findTip_path_node Let_def depthFirst_fold NewIDSet_def IDSet_GetVals_def
      split: option.splits)

text \<open>
  Claim C4. For a limit \<open>n \<ge> 0\<close>: when the path of the (case-folded) prefix does not
  exist, \<^verbatim>\<open>GetMany\<close> returns the empty sequence; otherwise it returns a duplicate-free
  sequence of identifiers stored at or below the node at the end of the path, whose length
  is the minimum of \<open>n\<close> and the number of distinct identifiers stored there. It never
  panics.
\<close>

theorem GetMany_bounded:
  assumes "0 \<le> n"
  shows "\<exists>vs. GetMany t p n = Inr vs \<and> distinct vs \<and>
    (case path_node (ToLower p) (root t) of
       None \<Rightarrow> vs = []
     | Some tip \<Rightarrow> set vs \<subseteq> ids_below tip \<and> length vs = min (nat n) (card (ids_below tip)))"
proof (cases "path_node (ToLower p) (root t)")
  case None
  then show ?thesis by (simp add: GetMany_eq)
next
  case (Some tip)
  let ?vs = "IDSet_GetVals (fold (offer n) (traversal (Some tip)) NewIDSet)"
  have e: "IDSet_GetVals NewIDSet = []"
    by (simp add: IDSet_GetVals_def NewIDSet_def)
  have "set ?vs \<subseteq> ids_below tip"
    using fold_offer_subset [of n "traversal (Some tip)" NewIDSet]
    by (simp add: e set_traversal)
  moreover have "length ?vs = min (nat n) (card (ids_below tip))"
    using fold_offer_length [of NewIDSet n "traversal (Some tip)"] assms
    by (simp add: e set_traversal)
  moreover have "distinct ?vs"
    by (simp add: IDSet_GetVals_def)
  ultimately show ?thesis using Some by (simp add: GetMany_eq)
qed

theorem GetMany_bounded_witness:
  "(0::int) \<le> 1 \<and>
   (\<exists>vs. GetMany (Add (Add NewTrie ''ab'' ''id1'') ''ac'' ''id2'') ''a'' 1 = Inr vs \<and>
         distinct vs \<and> set vs \<subseteq> {''id1'', ''id2''} \<and> length vs = 1)"
proof -
  let ?t = "Add (Add NewTrie ''ab'' ''id1'') ''ac'' ''id2''"
  let ?tip = "TrieNode [(rune CHR ''b'', Some (TrieNode [] (Dlist.insert ''id1'' Dlist.empty))),
                        (rune CHR ''c'', Some (TrieNode [] (Dlist.insert ''id2'' Dlist.empty)))]
                Dlist.empty"
  have tip: "path_node (ToLower ''a'') (root ?t) = Some ?tip"
    by (simp add: eval_simps ToLower_ab ToLower_ac ToLower_a)
  have ids: "ids_below ?tip = {''id1'', ''id2''}"
    by (auto simp: eval_simps ids_below.simps)
  have h: "(0::int) \<le> 1" by simp
  from GetMany_bounded [OF h, of ?t "''a''"] tip ids show ?thesis
    by simp
qed

section \<open>Lookups over \<^verbatim>\<open>nil\<close> links\<close>

text \<open>
  Claim C10. After any sequence of \<^verbatim>\<open>Add\<close> and \<^verbatim>\<open>Remove\<close> operations on the empty index
  (none of which panics), \<^verbatim>\<open>Get\<close> and \<^verbatim>\<open>GetMany\<close> return normally for every key, prefix
  and limit: \<^verbatim>\<open>findTip\<close> stops at an entry that \<^verbatim>\<open>RemoveLink\<close> has set to \<^verbatim>\<open>nil\<close>, and
  \<^verbatim>\<open>depthFirst\<close> returns its result unchanged when it is passed \<^verbatim>\<open>nil\<close>.
\<close>

theorem lookups_never_panic:
  "(\<exists>t. apply_ops ops NewTrie = Inr t \<and>
        (\<exists>vs. Get t k = Inr vs) \<and> (\<exists>vs. GetMany t p n = Inr vs)) \<and>
   depthFirst None n res = res"
proof -
  obtain t where "apply_ops ops NewTrie = Inr t"
    using apply_ops_returns by blast
  then show ?thesis
    by (simp add: Get_path_node GetMany_eq)
qed

end
